theory Spec2Isabelle
  imports Main "HOL-Library.AList"
begin

section \<open>Strings, optional strings and string-keyed objects\<close>

text \<open>
  The source is TypeScript (\<^verbatim>\<open>src/tasks/task.ts\<close>). An optional property
  (\<^verbatim>\<open>name?: string\<close>) is a \<open>string option\<close>, \<open>None\<close> standing for
  \<^verbatim>\<open>undefined\<close>. The tests \<^verbatim>\<open>if (step.name)\<close>, \<^verbatim>\<open>if (command)\<close>,
  \<^verbatim>\<open>this.condition ? _ : _\<close> are JavaScript truthiness tests: for a value that is a
  string or \<^verbatim>\<open>undefined\<close> they succeed exactly when it is a non-empty string.
\<close>

fun truthy :: "string option \<Rightarrow> bool" where
  "truthy None = False"
| "truthy (Some s) = (s \<noteq> [])"

text \<open>
  An object used as a string map (\<^verbatim>\<open>{ [name: string]: string }\<close>) is the list of its
  own properties in the order in which \<^verbatim>\<open>Object.entries\<close> and the spread
  \<^verbatim>\<open>{...o}\<close> enumerate them (ECMAScript's OrdinaryOwnPropertyKeys): the keys that are
  array indices first, in ascending numeric order, then every other string key in the
  order in which it was first created. A key occurs once.

  An array index is the canonical decimal numeral of an integer from \<open>0\<close> to
  \<open>2\<^sup>3\<^sup>2 - 2\<close>.
\<close>

type_synonym js_object = "(string \<times> string) list"

definition is_digit :: "char \<Rightarrow> bool" where
  "is_digit c = (c \<in> set ''0123456789'')"

definition digit_val :: "char \<Rightarrow> int" where
  "digit_val c = of_char c - 48"

definition numeric_val :: "string \<Rightarrow> int" where
  "numeric_val k = foldl (\<lambda>a c. 10 * a + digit_val c) 0 k"

definition is_array_index :: "string \<Rightarrow> bool" where
  "is_array_index k =
     (k \<noteq> [] \<and> list_all is_digit k \<and> (k = ''0'' \<or> hd k \<noteq> CHR ''0'') \<and>
      numeric_val k < 2 ^ 32 - 1)"

text \<open>
  Creating a property that the object does not have yet: an array index goes to its
  place among the array indices, any other key goes to the end.
\<close>

fun insert_index :: "string \<Rightarrow> string \<Rightarrow> js_object \<Rightarrow> js_object" where
  "insert_index k v [] = [(k, v)]"
| "insert_index k v ((k', v') # ps) =
     (if is_array_index k' \<and> numeric_val k' < numeric_val k
      then (k', v') # insert_index k v ps
      else (k, v) # (k', v') # ps)"

text \<open>
  \<^verbatim>\<open>o[k] = v\<close>: an existing property keeps its place and takes the new value
  (\<open>AList.update\<close> on a key that is present), a new one is created.
\<close>

definition set_prop :: "string \<Rightarrow> string \<Rightarrow> js_object \<Rightarrow> js_object" where
  "set_prop k v obj =
     (if k \<in> fst ` set obj then AList.update k v obj
      else if is_array_index k then insert_index k v obj
      else obj @ [(k, v)])"

text \<open>
  \<^verbatim>\<open>{...a, ...b}\<close>: a new object that receives the properties of \<open>a\<close>, then those of
  \<open>b\<close>, each source enumerated in its own order.
\<close>

definition copy_props :: "js_object \<Rightarrow> js_object \<Rightarrow> js_object" where
  "copy_props src obj = fold (\<lambda>(k, v). set_prop k v) src obj"

definition spread :: "js_object \<Rightarrow> js_object \<Rightarrow> js_object" where
  "spread a b = copy_props b (copy_props a [])"




text \<open>\<^verbatim>\<open>xs.join(sep)\<close> on an array of strings.\<close>

fun join :: "string \<Rightarrow> string list \<Rightarrow> string" where
  "join sep [] = []"
| "join sep [x] = x"
| "join sep (x # y # ys) = x @ sep @ join sep (y # ys)"

section \<open>Steps, tasks and the registry\<close>

datatype TaskCategory = BUILD | TEST | RELEASE | MAINTAIN | MISC

text \<open>
  Modelled from the spec: the declarations \<^verbatim>\<open>TaskStepOptions\<close> and \<^verbatim>\<open>TaskStep\<close>
  of \<^verbatim>\<open>./model\<close> are not among the sources. The spec gives every step the optional
  fields \<^verbatim>\<open>name\<close> (a label echoed before execution) and a step-local environment
  override map; \<^verbatim>\<open>task.ts\<close> reads \<^verbatim>\<open>step.name\<close>, \<^verbatim>\<open>step.exec\<close> and
  \<^verbatim>\<open>step.execTask\<close>, and passes \<^verbatim>\<open>name\<close> and \<^verbatim>\<open>env\<close> as step options. Where
  only the contents of a step list matter a step is a value; where aliasing matters it
  is an object in a store.
\<close>

record TaskStepOptions =
  step_name :: "string option"
  step_env :: "js_object option"

record TaskStep = TaskStepOptions +
  step_exec :: "string option"
  step_execTask :: "string option"

text \<open>
  The fields of class \<^verbatim>\<open>Task\<close>; \<open>priv_steps\<close> and \<open>priv_env\<close> are the private
  \<^verbatim>\<open>_steps\<close> and \<^verbatim>\<open>_env\<close>. The record is parametric in what \<^verbatim>\<open>_steps\<close> holds:
  the list of steps itself where only the contents matter, a reference to an array in a
  store where aliasing matters (section \<open>The steps accessor and aliasing\<close>). The
  back reference \<^verbatim>\<open>tasks\<close> to the registry is passed to the renderer as an argument.
\<close>

record 's Task_fields =
  name :: string
  description :: "string option"
  category :: "TaskCategory option"
  condition :: "string option"
  priv_steps :: 's
  priv_env :: js_object

type_synonym Task = "TaskStep list Task_fields"

text \<open>
  The registry \<^verbatim>\<open>Tasks\<close> (\<^verbatim>\<open>./tasks\<close>, not among the sources) is taken as a
  parameter: its lookup \<^verbatim>\<open>tryFind\<close>, which returns \<^verbatim>\<open>undefined\<close> for a name it does
  not hold, and its base environment \<^verbatim>\<open>env\<close>.
\<close>

record Tasks =
  tryFind :: "string \<Rightarrow> Task option"
  tasks_env :: js_object

record TaskOptions =
  opt_image :: "string option"
  opt_description :: "string option"
  opt_category :: "TaskCategory option"
  opt_env :: "js_object option"
  opt_condition :: "string option"
  opt_exec :: "string option"

record TaskSpec =
  spec_name :: string
  spec_category :: "TaskCategory option"
  spec_description :: "string option"
  spec_env :: js_object
  spec_steps :: "TaskStep list"
  spec_condition :: "string option"

section \<open>Step management\<close>

text \<open>The default \<^verbatim>\<open>options = { }\<close> of \<^verbatim>\<open>exec\<close>, \<^verbatim>\<open>prepend\<close> and \<^verbatim>\<open>execTask\<close>.\<close>

definition no_options :: TaskStepOptions where
  "no_options = \<lparr>step_name = None, step_env = None\<rparr>"

text \<open>
  The object literals \<^verbatim>\<open>{ exec: command, ...options }\<close> and
  \<^verbatim>\<open>{ execTask: subtask.name, ...options }\<close>: the options carry no \<^verbatim>\<open>exec\<close> and no
  \<^verbatim>\<open>execTask\<close>, so the spread adds the name and the environment only.
\<close>

definition inline_step :: "string \<Rightarrow> TaskStepOptions \<Rightarrow> TaskStep" where
  "inline_step command options =
     \<lparr>step_name = step_name options, step_env = step_env options,
      step_exec = Some command, step_execTask = None\<rparr>"

definition subtask_step :: "string \<Rightarrow> TaskStepOptions \<Rightarrow> TaskStep" where
  "subtask_step task_name options =
     \<lparr>step_name = step_name options, step_env = step_env options,
      step_exec = None, step_execTask = Some task_name\<rparr>"

text \<open>\<^verbatim>\<open>exec(command, options)\<close>: \<^verbatim>\<open>this._steps.push({ exec: command, ...options })\<close>\<close>

definition exec :: "string \<Rightarrow> TaskStepOptions \<Rightarrow> Task \<Rightarrow> Task" where
  "exec command options t = t\<lparr>priv_steps := priv_steps t @ [inline_step command options]\<rparr>"

text \<open>\<^verbatim>\<open>prepend(shell, options)\<close>: \<^verbatim>\<open>this._steps.unshift({ exec: shell, ...options })\<close>\<close>

definition prepend :: "string \<Rightarrow> TaskStepOptions \<Rightarrow> Task \<Rightarrow> Task" where
  "prepend shell options t = t\<lparr>priv_steps := inline_step shell options # priv_steps t\<rparr>"

text \<open>
  \<^verbatim>\<open>execTask(subtask, options)\<close>:
  \<^verbatim>\<open>this._steps.push({ execTask: subtask.name, ...options })\<close>
\<close>

definition execTask :: "Task \<Rightarrow> TaskStepOptions \<Rightarrow> Task \<Rightarrow> Task" where
  "execTask subtask options t =
     t\<lparr>priv_steps := priv_steps t @ [subtask_step (name subtask) options]\<rparr>"

text \<open>\<^verbatim>\<open>while (this._steps.length) { this._steps.shift(); }\<close>\<close>

fun shift_all :: "'a list \<Rightarrow> 'a list" where
  "shift_all [] = []"
| "shift_all (x # xs) = shift_all xs"

text \<open>\<^verbatim>\<open>reset(command?)\<close>: the argument is \<open>None\<close> when it is left out.\<close>

definition reset :: "string option \<Rightarrow> Task \<Rightarrow> Task" where
  "reset command t =
     (let t' = t\<lparr>priv_steps := shift_all (priv_steps t)\<rparr>
      in if truthy command then exec (the command) no_options t' else t')"

text \<open>\<^verbatim>\<open>this._env[name] = value\<close>\<close>

definition env :: "string \<Rightarrow> string \<Rightarrow> Task \<Rightarrow> Task" where
  "env k v t = t\<lparr>priv_env := set_prop k v (priv_env t)\<rparr>"

text \<open>
  The constructor: \<^verbatim>\<open>this._env = props.env ?? {}\<close>, \<^verbatim>\<open>this._steps = []\<close>, and
  \<^verbatim>\<open>if (props.exec) this.exec(props.exec)\<close>.
\<close>

definition new_Task :: "string \<Rightarrow> TaskOptions \<Rightarrow> Task" where
  "new_Task nm props =
     (let t = \<lparr>name = nm, description = opt_description props,
                category = opt_category props, condition = opt_condition props,
                priv_steps = [],
                priv_env = (case opt_env props of None \<Rightarrow> [] | Some e \<Rightarrow> e)\<rparr>
      in if truthy (opt_exec props) then exec (the (opt_exec props)) no_options t else t)"

definition no_props :: TaskOptions where
  "no_props = \<lparr>opt_image = None, opt_description = None, opt_category = None,
                opt_env = None, opt_condition = None, opt_exec = None\<rparr>"

text \<open>
  The accessor \<^verbatim>\<open>get steps() { return [...this._steps]; }\<close>, on the contents: the
  copy holds the same steps in the same order.
\<close>

definition steps :: "Task \<Rightarrow> TaskStep list" where
  "steps t = priv_steps t"

text \<open>
  \<^verbatim>\<open>_renderSpec()\<close>. The methods \<^verbatim>\<open>commit\<close>, \<^verbatim>\<open>push\<close> and \<^verbatim>\<open>artifact\<close> are left
  out: \<^verbatim>\<open>commit\<close> adds one inline step through \<^verbatim>\<open>exec\<close>, and the renderer reads
  nothing that the other two make.
\<close>

definition renderSpec :: "Task \<Rightarrow> TaskSpec" where
  "renderSpec t =
     \<lparr>spec_name = name t, spec_category = category t, spec_description = description t,
      spec_env = priv_env t, spec_steps = priv_steps t, spec_condition = condition t\<rparr>"

section \<open>Rendering a task as one shell command\<close>

datatype error = UnresolvedSubtask string

text \<open>\<^verbatim>\<open>new Error(`unable to resolve subtask ${step.execTask}`)\<close>\<close>

fun error_message :: "error \<Rightarrow> string" where
  "error_message (UnresolvedSubtask n) = ''unable to resolve subtask '' @ n"

text \<open>
  The loop over \<^verbatim>\<open>this.steps\<close> (lines 196 to 211), with the array \<^verbatim>\<open>cmd\<close> as an
  accumulator. \<open>sub\<close> is the call \<^verbatim>\<open>subtask.toShellCommand()\<close>: \<open>None\<close> when it
  does not return, \<open>Some (Inl e)\<close> when it throws \<open>e\<close>, \<open>Some (Inr s)\<close> when it
  returns \<open>s\<close>. A \<^verbatim>\<open>throw\<close> leaves the loop and the whole call.
\<close>

fun render_steps ::
  "(Task \<Rightarrow> (error + string) option) \<Rightarrow> Tasks \<Rightarrow> TaskStep list \<Rightarrow> string list
     \<Rightarrow> (error + string list) option" where
  "render_steps sub reg [] cmd = Some (Inr cmd)"
| "render_steps sub reg (step # rest) cmd =
     (let cmd1 = (if truthy (step_name step)
                  then cmd @ [''echo '' @ the (step_name step)] else cmd);
          cmd2 = (if truthy (step_exec step)
                  then cmd1 @ [the (step_exec step)] else cmd1)
      in if truthy (step_execTask step)
         then (case tryFind reg (the (step_execTask step)) of
                 None \<Rightarrow> Some (Inl (UnresolvedSubtask (the (step_execTask step))))
               | Some subtask \<Rightarrow>
                   (case sub subtask of
                      None \<Rightarrow> None
                    | Some (Inl e) \<Rightarrow> Some (Inl e)
                    | Some (Inr s) \<Rightarrow>
                        render_steps sub reg rest (cmd2 @ [''( '' @ s @ '' )''])))
         else render_steps sub reg rest cmd2)"

text \<open>\<^verbatim>\<open>cmd.map(c => `( ${c} )`).join(' && ')\<close>\<close>

definition allCommands :: "string list \<Rightarrow> string" where
  "allCommands cmd = join '' && '' (map (\<lambda>c. ''( '' @ c @ '' )'') cmd)"

text \<open>
  \<^verbatim>\<open>this.condition ? `! ( ${this.condition} ) || ( ${allCommands} )` : allCommands\<close>
\<close>

definition withCondition :: "string option \<Rightarrow> string \<Rightarrow> string" where
  "withCondition cond all =
     (if truthy cond then ''! ( '' @ the cond @ '' ) || ( '' @ all @ '' )'' else all)"

text \<open>\<^verbatim>\<open>{ ...this.tasks.env, ...this._env }\<close>\<close>

definition effective_env :: "Tasks \<Rightarrow> Task \<Rightarrow> js_object" where
  "effective_env reg t = spread (tasks_env reg) (priv_env t)"

text \<open>One line \<^verbatim>\<open>`${k}="${v}"; `\<close> per entry of \<^verbatim>\<open>Object.entries(env)\<close>.\<close>

definition assignment :: "string \<times> string \<Rightarrow> string" where
  \<open>assignment kv = fst kv @ ''="'' @ snd kv @ ''"; ''\<close>

definition env_lines :: "js_object \<Rightarrow> string list" where
  "env_lines e = map assignment e"

text \<open>\<^verbatim>\<open>`( ${lines.join('')} ${withCondition} )`\<close>\<close>

definition assemble :: "Tasks \<Rightarrow> Task \<Rightarrow> string list \<Rightarrow> string" where
  "assemble reg t cmd =
     ''( '' @ join [] (env_lines (effective_env reg t)) @ '' '' @
     withCondition (condition t) (allCommands cmd) @ '' )''"

text \<open>
  \<^verbatim>\<open>toShellCommand\<close> calls itself on every subtask it resolves, and nothing bounds the
  depth of that recursion. The first argument is the depth still allowed: \<open>None\<close>
  says that the call has not returned within it, so a call that never returns is
  \<open>None\<close> at every depth. A task is created by its registry, which the constructor
  stores in \<^verbatim>\<open>this.tasks\<close>: the subtask that \<^verbatim>\<open>this.tasks.tryFind\<close> returns looks
  its own subtasks up in the same registry \<open>reg\<close>.
\<close>

fun toShellCommand :: "nat \<Rightarrow> Tasks \<Rightarrow> Task \<Rightarrow> (error + string) option" where
  "toShellCommand 0 reg t = None"
| "toShellCommand (Suc n) reg t =
     (case render_steps (toShellCommand n reg) reg (steps t) [] of
        None \<Rightarrow> None
      | Some (Inl e) \<Rightarrow> Some (Inl e)
      | Some (Inr cmd) \<Rightarrow> Some (Inr (assemble reg t cmd)))"

text \<open>
  What the loop body pushes for a step before it looks at \<^verbatim>\<open>step.execTask\<close>
  (lines 197 to 202): the echo of a truthy name, then a truthy inline command.
\<close>

definition own_fragments :: "TaskStep \<Rightarrow> string list" where
  "own_fragments step =
     (if truthy (step_name step) then [''echo '' @ the (step_name step)] else []) @
     (if truthy (step_exec step) then [the (step_exec step)] else [])"

section \<open>The graph of subtask references\<close>

text \<open>
  A task \<open>t\<close> references \<open>t'\<close> in a registry when one of its steps has a truthy
  \<^verbatim>\<open>execTask\<close> that \<^verbatim>\<open>tryFind\<close> resolves to \<open>t'\<close>: these are the steps on which
  \<^verbatim>\<open>toShellCommand\<close> calls itself. A task has an unresolved reference when a truthy
  \<^verbatim>\<open>execTask\<close> of one of its steps is a name that \<^verbatim>\<open>tryFind\<close> does not find. A task
  references itself, directly or transitively, when the pair of it and itself is in the
  transitive closure of the graph.
\<close>

definition references :: "Tasks \<Rightarrow> Task \<Rightarrow> Task \<Rightarrow> bool" where
  "references reg t t' =
     (\<exists>st \<in> set (steps t). truthy (step_execTask st) \<and>
        tryFind reg (the (step_execTask st)) = Some t')"

definition unresolved :: "Tasks \<Rightarrow> Task \<Rightarrow> bool" where
  "unresolved reg t =
     (\<exists>st \<in> set (steps t). truthy (step_execTask st) \<and>
        tryFind reg (the (step_execTask st)) = None)"

definition subtask_graph :: "Tasks \<Rightarrow> (Task \<times> Task) set" where
  "subtask_graph reg = {(t, t'). references reg t t'}"

section \<open>The steps accessor and aliasing\<close>

text \<open>
  The private field \<^verbatim>\<open>_steps\<close> holds a reference to an array, and so does every value
  that the accessors return. The elements of such an array are references too: every
  step is an object, made by the object literal of \<^verbatim>\<open>exec\<close>, \<^verbatim>\<open>prepend\<close> or
  \<^verbatim>\<open>execTask\<close> (lines 111, 119 and 130). A store maps the references allocated so far
  to the contents of the arrays, which are lists of references to step objects, and to
  the fields of the step objects; \<open>next_ref\<close> is the next reference to allocate. In a
  well-formed store every array and every object was allocated. Whatever
  \<^verbatim>\<open>./model\<close> declares read-only in \<^verbatim>\<open>TaskStep\<close> is so for the type checker only:
  at run time a field of a step object can be assigned.
\<close>

type_synonym ref = nat

record store =
  arrays :: "ref \<Rightarrow> ref list option"
  objects :: "ref \<Rightarrow> TaskStep option"
  next_ref :: ref

type_synonym Task_object = "ref Task_fields"





text \<open>
  Any mutation of an array through a reference to it (\<^verbatim>\<open>push\<close>, \<^verbatim>\<open>pop\<close>,
  \<^verbatim>\<open>shift\<close>, \<^verbatim>\<open>splice\<close>, an assignment to an index or to \<^verbatim>\<open>length\<close>) replaces
  the contents \<open>rs\<close> of that array by some \<open>f rs\<close>.
\<close>

definition mutate_array :: "ref \<Rightarrow> (ref list \<Rightarrow> ref list) \<Rightarrow> store \<Rightarrow> store" where
  "mutate_array r f s =
     (case arrays s r of
        None \<Rightarrow> s
      | Some rs \<Rightarrow> s\<lparr>arrays := (arrays s)(r \<mapsto> f rs)\<rparr>)"








definition renderSpec_steps :: "Task_object \<Rightarrow> ref" where
  "renderSpec_steps this = priv_steps this"


section \<open>The rendered command as shell syntax\<close>








section \<open>Example registries and tasks\<close>

text \<open>A registry that holds no task and no base environment.\<close>

definition empty_registry :: Tasks where
  "empty_registry = \<lparr>tryFind = (\<lambda>n. None), tasks_env = []\<rparr>"

text \<open>A step option record that carries a name only.\<close>

definition named :: "string \<Rightarrow> TaskStepOptions" where
  "named n = \<lparr>step_name = Some n, step_env = None\<rparr>"

text \<open>A task of two inline steps, added one after the other.\<close>

definition compile_task :: Task where
  "compile_task =
     exec ''jest'' no_options (exec ''tsc'' no_options (new_Task ''compile'' no_props))"


text \<open>
  A task whose environment sets \<open>FOO\<close>, with one step whose options carry an
  environment override for \<open>FOO\<close>.
\<close>

definition step_env_task :: Task where
  "step_env_task =
     env ''FOO'' ''task''
       (exec ''run'' \<lparr>step_name = None, step_env = Some [(''FOO'', ''step'')]\<rparr>
          (new_Task ''build'' no_props))"





text \<open>
  A registry of two tasks, \<open>build\<close> running \<open>compile\<close> as a subtask; a registry of
  two tasks that reference each other; a task that references a task the registry does
  not hold and then itself.
\<close>

definition build_task :: Task where
  "build_task =
     exec ''pack'' no_options (execTask compile_task no_options (new_Task ''build'' no_props))"

definition build_registry :: Tasks where
  "build_registry =
     \<lparr>tryFind = map_of [(''compile'', compile_task), (''build'', build_task)], tasks_env = []\<rparr>"

definition ping_task :: Task where
  "ping_task = execTask (new_Task ''pong'' no_props) no_options (new_Task ''ping'' no_props)"

definition pong_task :: Task where
  "pong_task = execTask (new_Task ''ping'' no_props) no_options (new_Task ''pong'' no_props)"

definition loop_registry :: Tasks where
  "loop_registry =
     \<lparr>tryFind = map_of [(''ping'', ping_task), (''pong'', pong_task)], tasks_env = []\<rparr>"

definition retry_task :: Task where
  "retry_task =
     execTask (new_Task ''retry'' no_props) no_options
       (execTask (new_Task ''missing'' no_props) no_options (new_Task ''retry'' no_props))"

definition retry_registry :: Tasks where
  "retry_registry = \<lparr>tryFind = map_of [(''retry'', retry_task)], tasks_env = []\<rparr>"

text \<open>
  A task with a reference that an empty registry does not resolve between two inline
  steps; a task with two such references; a task whose name is the empty string, and a
  registry that holds it; a task with a resolved and an unresolved reference.
\<close>

definition deploy_task :: Task where
  "deploy_task =
     exec ''publish'' no_options
       (execTask (new_Task ''release'' no_props) no_options
          (exec ''pack'' no_options (new_Task ''deploy'' no_props)))"

definition unnamed_task :: Task where
  "unnamed_task = exec ''date'' no_options (new_Task '''' no_props)"

definition unnamed_registry :: Tasks where
  "unnamed_registry = \<lparr>tryFind = map_of [('''', unnamed_task)], tasks_env = []\<rparr>"

definition two_missing_task :: Task where
  "two_missing_task =
     execTask (new_Task ''second'' no_props) no_options
       (execTask (new_Task ''first'' no_props) no_options (new_Task ''build'' no_props))"

definition half_missing_task :: Task where
  "half_missing_task =
     execTask (new_Task ''release'' no_props) no_options
       (execTask compile_task no_options (new_Task ''ship'' no_props))"







section \<open>Facts about string-keyed objects\<close>

lemma map_of_insert_index:
  "k \<notin> fst ` set obj \<Longrightarrow> map_of (insert_index k v obj) = (map_of obj)(k \<mapsto> v)"
proof (induction obj)
  case Nil
  then show ?case by simp
next
  case (Cons p ps)
  obtain k' v' where p: "p = (k', v')" by (cases p)
  with Cons.prems have "k \<noteq> k'" "k \<notin> fst ` set ps" by auto
  with Cons.IH p show ?case by (auto simp: fun_upd_twist)
qed

lemma map_of_set_prop: "map_of (set_prop k v obj) = (map_of obj)(k \<mapsto> v)"
proof -
  have "map_of (obj @ [(k, v)]) = (map_of obj)(k \<mapsto> v)" if "k \<notin> fst ` set obj"
  proof -
    from that have "map_of obj k = None" by (simp add: map_of_eq_None_iff)
    then show ?thesis by (auto simp: map_add_def fun_eq_iff split: option.splits)
  qed
  then show ?thesis
    by (simp add: set_prop_def update_conv' map_of_insert_index)
qed

lemma map_of_copy_props:
  "map_of (copy_props src obj) = map_of obj ++ map_of (rev src)"
  unfolding copy_props_def
proof (induction src arbitrary: obj)
  case Nil
  then show ?case by simp
next
  case (Cons p ps)
  obtain k v where p: "p = (k, v)" by (cases p)
  show ?case
    by (simp add: p Cons.IH map_of_set_prop map_add_upd_left fun_eq_iff map_add_def split: option.splits)
qed

lemma map_of_rev_distinct:
  "distinct (map fst xs) \<Longrightarrow> map_of (rev xs) = map_of xs"
proof (induction xs)
  case Nil
  then show ?case by simp
next
  case (Cons p ps)
  then have "map_of ps (fst p) = None"
    by (simp add: map_of_eq_None_iff)
  with Cons show ?case
    by (auto simp: fun_eq_iff map_add_def split: option.splits)
qed

lemma map_of_spread:
  assumes "distinct (map fst a)" "distinct (map fst b)"
  shows "map_of (spread a b) = map_of a ++ map_of b"
  using assms by (simp add: spread_def map_of_copy_props map_of_rev_distinct)






























lemma not_index_FOO: "\<not> is_array_index ''FOO''"
  by (simp add: is_array_index_def is_digit_def)

section \<open>Facts about the rendering loop\<close>

lemma render_steps_Cons:
  "render_steps sub reg (step # rest) cmd =
     (if truthy (step_execTask step)
      then (case tryFind reg (the (step_execTask step)) of
              None \<Rightarrow> Some (Inl (UnresolvedSubtask (the (step_execTask step))))
            | Some subtask \<Rightarrow>
                (case sub subtask of
                   None \<Rightarrow> None
                 | Some (Inl e) \<Rightarrow> Some (Inl e)
                 | Some (Inr s) \<Rightarrow>
                     render_steps sub reg rest
                       (cmd @ own_fragments step @ [''( '' @ s @ '' )''])))
      else render_steps sub reg rest (cmd @ own_fragments step))"
  by (auto simp: own_fragments_def Let_def split: option.splits sum.splits)

lemma render_steps_mono:
  assumes "\<And>t r. f t = Some r \<Longrightarrow> g t = Some r"
  shows "render_steps f reg ss cmd = Some r \<Longrightarrow> render_steps g reg ss cmd = Some r"
proof (induction ss arbitrary: cmd)
  case Nil
  then show ?case by simp
next
  case (Cons step rest)
  show ?case
  proof (cases "truthy (step_execTask step)")
    case False
    with Cons show ?thesis by (simp add: render_steps_Cons del: render_steps.simps)
  next
    case True
    show ?thesis
    proof (cases "tryFind reg (the (step_execTask step))")
      case None
      with True Cons.prems show ?thesis
        by (simp add: render_steps_Cons del: render_steps.simps)
    next
      case (Some subtask)
      show ?thesis
      proof (cases "f subtask")
        case None
        with True Some Cons.prems show ?thesis
          by (simp add: render_steps_Cons del: render_steps.simps)
      next
        case fs: (Some res)
        then have gs: "g subtask = Some res" by (rule assms)
        from True Some fs gs Cons.prems Cons.IH show ?thesis
          by (cases res) (simp_all add: render_steps_Cons del: render_steps.simps)
      qed
    qed
  qed
qed

lemma toShellCommand_Suc:
  "toShellCommand n reg t = Some r \<Longrightarrow> toShellCommand (Suc n) reg t = Some r"
proof (induction n arbitrary: t r)
  case 0
  then show ?case by simp
next
  case (Suc n)
  have step: "\<And>t r. toShellCommand n reg t = Some r \<Longrightarrow> toShellCommand (Suc n) reg t = Some r"
    by (rule Suc.IH)
  from Suc.prems obtain res where
    res: "render_steps (toShellCommand n reg) reg (steps t) [] = Some res"
    by (auto split: option.splits)
  have "render_steps (toShellCommand (Suc n) reg) reg (steps t) [] = Some res"
    by (rule render_steps_mono [OF step res])
  with res Suc.prems show ?case
    by (cases res) simp_all
qed

lemma toShellCommand_mono:
  "n \<le> m \<Longrightarrow> toShellCommand n reg t = Some r \<Longrightarrow> toShellCommand m reg t = Some r"
  by (induction m) (auto simp: le_Suc_eq dest: toShellCommand_Suc simp del: toShellCommand.simps)

text \<open>
  The depth only bounds the recursion: a call that has returned or raised within some
  depth gives the same result within every larger one, so no two depths disagree.
\<close>

lemma toShellCommand_deterministic:
  assumes "toShellCommand n reg t = Some r" "toShellCommand m reg t = Some r'"
  shows "r = r'"
proof (cases "n \<le> m")
  case True
  with assms toShellCommand_mono show ?thesis by fastforce
next
  case False
  then have "m \<le> n" by simp
  with assms toShellCommand_mono show ?thesis by fastforce
qed

lemma render_steps_acc:
  "render_steps sub reg ss cmd =
     (case render_steps sub reg ss [] of
        None \<Rightarrow> None
      | Some (Inl e) \<Rightarrow> Some (Inl e)
      | Some (Inr frags) \<Rightarrow> Some (Inr (cmd @ frags)))"
proof (induction ss arbitrary: cmd)
  case Nil
  then show ?case by simp
next
  case (Cons step rest)
  show ?case
  proof (cases "truthy (step_execTask step)")
    case False
    with Cons.IH [of "cmd @ own_fragments step"] Cons.IH [of "own_fragments step"]
    show ?thesis
      by (simp add: render_steps_Cons del: render_steps.simps
               split: option.splits sum.splits)
  next
    case True
    show ?thesis
    proof (cases "tryFind reg (the (step_execTask step))")
      case None
      with True show ?thesis
        by (simp add: render_steps_Cons del: render_steps.simps)
    next
      case (Some subtask)
      show ?thesis
      proof (cases "sub subtask")
        case None
        with True Some show ?thesis
          by (simp add: render_steps_Cons del: render_steps.simps)
      next
        case res: (Some res)
        show ?thesis
        proof (cases res)
          case (Inl e)
          with True Some res show ?thesis
            by (simp add: render_steps_Cons del: render_steps.simps)
        next
          case (Inr s)
          with True Some res
            Cons.IH [of "cmd @ own_fragments step @ [''( '' @ s @ '' )'']"]
            Cons.IH [of "own_fragments step @ [''( '' @ s @ '' )'']"]
          show ?thesis
            by (simp add: render_steps_Cons del: render_steps.simps
                     split: option.splits sum.splits)
        qed
      qed
    qed
  qed
qed

lemma render_steps_append:
  "render_steps sub reg (xs @ ys) cmd =
     (case render_steps sub reg xs cmd of
        None \<Rightarrow> None
      | Some (Inl e) \<Rightarrow> Some (Inl e)
      | Some (Inr c) \<Rightarrow> render_steps sub reg ys c)"
proof (induction xs arbitrary: cmd)
  case Nil
  then show ?case by simp
next
  case (Cons step rest)
  show ?case
    by (simp add: render_steps_Cons Cons.IH del: render_steps.simps
             split: option.splits sum.splits)
qed

lemma join_Nil: "join [] xs = concat xs"
  by (induction "[] :: string" xs rule: join.induct) simp_all

lemma assemble_priv_steps:
  "assemble reg (t\<lparr>priv_steps := ss\<rparr>) cmd = assemble reg t cmd"
  by (simp add: assemble_def effective_env_def)

lemma toShellCommand_Inr_iff:
  "toShellCommand (Suc n) reg t = Some (Inr s) \<longleftrightarrow>
     (\<exists>cmd. render_steps (toShellCommand n reg) reg (steps t) [] = Some (Inr cmd) \<and>
            s = assemble reg t cmd)"
  by (auto split: option.splits sum.splits)

lemma render_steps_inline:
  assumes "\<forall>st \<in> set ss. \<not> truthy (step_execTask st)"
  shows "render_steps sub reg ss cmd = Some (Inr (cmd @ concat (map own_fragments ss)))"
  using assms
  by (induction ss arbitrary: cmd) (simp_all add: render_steps_Cons del: render_steps.simps(2))

lemma own_fragments_plain:
  "truthy (step_exec st) \<Longrightarrow> \<not> truthy (step_name st) \<Longrightarrow> own_fragments st = [the (step_exec st)]"
  by (simp add: own_fragments_def)

lemma concat_own_fragments_plain:
  "\<forall>st \<in> set ss. truthy (step_exec st) \<and> \<not> truthy (step_name st) \<Longrightarrow>
     concat (map own_fragments ss) = map (\<lambda>st. the (step_exec st)) ss"
  by (induction ss) (simp_all add: own_fragments_plain)

lemma render_steps_step_env:
  "render_steps sub reg (map (\<lambda>s. s\<lparr>step_env := e s\<rparr>) ss) cmd = render_steps sub reg ss cmd"
  by (induction ss arbitrary: cmd)
     (simp_all add: Let_def cong: option.case_cong sum.case_cong)

lemma own_fragments_inline_empty:
  "own_fragments (inline_step [] opts) =
     (if truthy (step_name opts) then [''echo '' @ the (step_name opts)] else [])"
  by (simp add: own_fragments_def inline_step_def)

lemma own_fragments_inline_plain:
  "c \<noteq> [] \<Longrightarrow> own_fragments (inline_step c no_options) = [c]"
  by (simp add: own_fragments_def inline_step_def no_options_def)

lemma render_steps_inline_step:
  "render_steps sub reg (inline_step c opts # rest) cmd =
     render_steps sub reg rest (cmd @ own_fragments (inline_step c opts))"
  by (simp add: render_steps_Cons inline_step_def del: render_steps.simps)

lemma render_steps_same_fragments:
  assumes "own_fragments (inline_step c opts) = own_fragments (inline_step c' opts')"
  shows "render_steps sub reg (xs @ inline_step c opts # ys) cmd =
         render_steps sub reg (xs @ inline_step c' opts' # ys) cmd"
  using assms
  by (simp add: render_steps_append render_steps_inline_step del: render_steps.simps
        cong: option.case_cong sum.case_cong)

lemma render_steps_no_fragments:
  assumes "own_fragments (inline_step c opts) = []"
  shows "render_steps sub reg (xs @ inline_step c opts # ys) cmd =
         render_steps sub reg (xs @ ys) cmd"
  using assms
  by (simp add: render_steps_append render_steps_inline_step del: render_steps.simps
        cong: option.case_cong sum.case_cong)

lemma toShellCommand_cong_steps:
  assumes "\<And>sub. render_steps sub reg (priv_steps t') [] = render_steps sub reg (priv_steps t) []"
    and "condition t' = condition t" and "priv_env t' = priv_env t"
  shows "toShellCommand n reg t' = toShellCommand n reg t"
  using assms
  by (cases n)
     (simp_all add: steps_def assemble_def effective_env_def cong: option.case_cong sum.case_cong)

lemma render_steps_Inr_subtask:
  assumes "render_steps sub reg ss cmd = Some (Inr c)"
    and "st \<in> set ss" and "truthy (step_execTask st)"
  shows "\<exists>t' s'. tryFind reg (the (step_execTask st)) = Some t' \<and> sub t' = Some (Inr s')"
  using assms
proof (induction ss arbitrary: cmd)
  case Nil
  then show ?case by simp
next
  case (Cons a ss)
  from Cons.prems(1) show ?case
    using Cons.IH Cons.prems(2,3)
    by (auto simp: render_steps_Cons simp del: render_steps.simps
          split: if_splits option.splits sum.splits)
qed

lemma render_steps_Inl_origin:
  assumes "render_steps sub reg ss cmd = Some (Inl e)"
  shows "\<exists>st \<in> set ss. truthy (step_execTask st) \<and>
           (tryFind reg (the (step_execTask st)) = None \<and>
              e = UnresolvedSubtask (the (step_execTask st)) \<or>
            (\<exists>t'. tryFind reg (the (step_execTask st)) = Some t' \<and> sub t' = Some (Inl e)))"
  using assms
proof (induction ss arbitrary: cmd)
  case Nil
  then show ?case by simp
next
  case (Cons a ss)
  from Cons.prems show ?case
    using Cons.IH
    by (auto simp: render_steps_Cons simp del: render_steps.simps
          split: if_splits option.splits sum.splits)
qed

lemma render_steps_None_origin:
  assumes "render_steps sub reg ss cmd = None"
  shows "\<exists>st \<in> set ss. truthy (step_execTask st) \<and>
           (\<exists>t'. tryFind reg (the (step_execTask st)) = Some t' \<and> sub t' = None)"
  using assms
proof (induction ss arbitrary: cmd)
  case Nil
  then show ?case by simp
next
  case (Cons a ss)
  from Cons.prems show ?case
    using Cons.IH
    by (auto simp: render_steps_Cons simp del: render_steps.simps
          split: if_splits option.splits sum.splits)
qed

lemma render_steps_unresolved:
  assumes "step_execTask st = Some m" and "m \<noteq> []" and "tryFind reg m = None"
  shows "render_steps sub reg (st # post) cmd = Some (Inl (UnresolvedSubtask m))"
  using assms by (simp add: render_steps_Cons del: render_steps.simps)

lemma render_steps_resolved:
  assumes "step_execTask st = Some bn" and "bn \<noteq> []" and "tryFind reg bn = Some b"
  shows "render_steps sub reg (st # post) cmd =
     (case sub b of
        None \<Rightarrow> None
      | Some (Inl e) \<Rightarrow> Some (Inl e)
      | Some (Inr s) \<Rightarrow>
          render_steps sub reg post (cmd @ own_fragments st @ [''( '' @ s @ '' )'']))"
  using assms by (simp add: render_steps_Cons del: render_steps.simps)

lemma render_steps_split:
  assumes "step_execTask st = Some bn" and "bn \<noteq> []" and "tryFind reg bn = Some b"
  shows "render_steps sub reg (pre @ st # post) [] = Some (Inr c) \<longleftrightarrow>
     (\<exists>cpre sb cpost.
        render_steps sub reg pre [] = Some (Inr cpre) \<and>
        sub b = Some (Inr sb) \<and>
        render_steps sub reg post [] = Some (Inr cpost) \<and>
        c = cpre @ own_fragments st @ [''( '' @ sb @ '' )''] @ cpost)"
proof -
  have "render_steps sub reg (pre @ st # post) [] =
     (case render_steps sub reg pre [] of
        None \<Rightarrow> None
      | Some (Inl e) \<Rightarrow> Some (Inl e)
      | Some (Inr cpre) \<Rightarrow>
          (case sub b of
             None \<Rightarrow> None
           | Some (Inl e) \<Rightarrow> Some (Inl e)
           | Some (Inr sb) \<Rightarrow>
               (case render_steps sub reg post [] of
                  None \<Rightarrow> None
                | Some (Inl e) \<Rightarrow> Some (Inl e)
                | Some (Inr cpost) \<Rightarrow>
                    Some (Inr ((cpre @ own_fragments st @ [''( '' @ sb @ '' )'']) @ cpost)))))"
    by (simp add: render_steps_append render_steps_resolved [OF assms]
          render_steps_acc [of sub reg post "_ @ _"]
          del: render_steps.simps cong: option.case_cong sum.case_cong)
  then show ?thesis
    by (auto simp del: render_steps.simps split: option.splits sum.splits)
qed

section \<open>Facts about the shell reading\<close>









section \<open>Facts about the example tasks\<close>

lemma compile_task_steps:
  "steps compile_task = [inline_step ''tsc'' no_options, inline_step ''jest'' no_options]"
  by (simp add: compile_task_def steps_def exec_def new_Task_def no_props_def)

lemma build_task_steps:
  "steps build_task = [subtask_step ''compile'' no_options, inline_step ''pack'' no_options]"
  by (simp add: build_task_def steps_def exec_def execTask_def new_Task_def no_props_def
        compile_task_def)

section \<open>Step management: \<open>reset\<close>\<close>

lemma shift_all_empty: "shift_all xs = []"
  by (induction xs) simp_all

text \<open>
  Claim C8, as amended. For every task and every non-empty command string \<open>cmd\<close>,
  \<open>reset\<close> with \<open>cmd\<close> followed by the \<open>steps\<close> accessor yields exactly one
  step, an inline step whose command is \<open>cmd\<close> (with no name, no environment and no
  subtask). With the empty string, or with no argument, the step list is empty: the
  guard \<^verbatim>\<open>if (command)\<close> is false for both.
\<close>

theorem reset_steps:
  "(cmd \<noteq> [] \<longrightarrow>
      steps (reset (Some cmd) t) =
        [\<lparr>step_name = None, step_env = None, step_exec = Some cmd, step_execTask = None\<rparr>]) \<and>
   steps (reset (Some []) t) = [] \<and>
   steps (reset None t) = []"
  by (simp add: reset_def steps_def exec_def inline_step_def no_options_def shift_all_empty)

text \<open>The first part at the command \<open>make\<close>, on a task that had a step.\<close>

theorem reset_steps_witness:
  "steps (reset (Some ''make'') (exec ''old'' no_options (new_Task ''build'' no_props))) =
     [\<lparr>step_name = None, step_env = None, step_exec = Some ''make'', step_execTask = None\<rparr>]"
  using reset_steps [of "''make''" "exec ''old'' no_options (new_Task ''build'' no_props)"]
  by simp

text \<open>
  Claim C8 as stated (every command string) fails at the empty string: after
  \<^verbatim>\<open>reset("")\<close> the task has no step at all.
\<close>

theorem reset_empty_command_counterexample:
  "steps (reset (Some '''') (exec ''old'' no_options (new_Task ''build'' no_props))) = [] \<and>
   steps (reset (Some '''') (exec ''old'' no_options (new_Task ''build'' no_props))) \<noteq>
     [\<lparr>step_name = None, step_env = None, step_exec = Some '''', step_execTask = None\<rparr>]"
  by (simp add: reset_def steps_def exec_def inline_step_def no_options_def shift_all_empty)

section \<open>The AND-chain of inline steps\<close>

text \<open>
  Claim C6, as amended. For every task with no condition (none, or the empty string)
  whose steps are inline steps, the rendered command is the \<open>&&\<close>-join of the
  individually grouped fragments of its steps, in the order of the step list: each step
  gives first \<open>echo name\<close> when it has a non-empty name, then its command when that is
  non-empty. When each of the \<open>N\<close> steps has a non-empty command and no non-empty
  name, these are exactly \<open>N\<close> fragments, the commands in step order.
\<close>

theorem inline_steps_and_chain:
  assumes "\<not> truthy (condition t)"
    and "\<forall>st \<in> set (steps t). \<not> truthy (step_execTask st)"
  shows "toShellCommand (Suc n) reg t =
           Some (Inr (''( '' @ join [] (env_lines (effective_env reg t)) @ '' '' @
             join '' && '' (map (\<lambda>c. ''( '' @ c @ '' )'') (concat (map own_fragments (steps t)))) @
             '' )'')) \<and>
         ((\<forall>st \<in> set (steps t). truthy (step_exec st) \<and> \<not> truthy (step_name st)) \<longrightarrow>
            concat (map own_fragments (steps t)) = map (\<lambda>st. the (step_exec st)) (steps t) \<and>
            length (concat (map own_fragments (steps t))) = length (steps t))"
proof -
  have "render_steps (toShellCommand n reg) reg (steps t) [] =
          Some (Inr (concat (map own_fragments (steps t))))"
    using render_steps_inline [OF assms(2), of "toShellCommand n reg" reg "[]"] by simp
  with assms(1) show ?thesis
    by (simp add: assemble_def withCondition_def allCommands_def concat_own_fragments_plain)
qed

text \<open>
  The task \<open>compile_task\<close>: two inline steps added with \<^verbatim>\<open>exec\<close>, two grouped
  fragments in that order.
\<close>

theorem inline_steps_and_chain_witness:
  "toShellCommand 1 empty_registry compile_task = Some (Inr ''(  ( tsc ) && ( jest ) )'') \<and>
   concat (map own_fragments (steps compile_task)) = [''tsc'', ''jest'']"
proof -
  have steps: "steps compile_task = [inline_step ''tsc'' no_options, inline_step ''jest'' no_options]"
    by (simp add: compile_task_def steps_def exec_def new_Task_def no_props_def)
  have c: "\<not> truthy (condition compile_task)"
    by (simp add: compile_task_def exec_def new_Task_def no_props_def)
  have e: "\<forall>st \<in> set (steps compile_task). \<not> truthy (step_execTask st)"
    by (simp add: steps inline_step_def)
  have p: "\<forall>st \<in> set (steps compile_task). truthy (step_exec st) \<and> \<not> truthy (step_name st)"
    by (simp add: steps inline_step_def no_options_def)
  have env: "effective_env empty_registry compile_task = []"
    by (simp add: effective_env_def empty_registry_def compile_task_def exec_def new_Task_def
          no_props_def spread_def copy_props_def)
  show ?thesis
    using inline_steps_and_chain [OF c e, of 0 empty_registry] p
    by (simp add: steps env env_lines_def inline_step_def own_fragments_def no_options_def)
qed

text \<open>
  Claim C6 as stated fails for a step that has a name: one inline step, added with
  \<^verbatim>\<open>exec("tsc", { name: "compile" })\<close> to a task with no condition, renders as two
  grouped fragments and not as the single fragment \<open>( tsc )\<close>.
\<close>

theorem named_step_counterexample:
  "length (steps (exec ''tsc'' (named ''compile'') (new_Task ''build'' no_props))) = 1 \<and>
   condition (exec ''tsc'' (named ''compile'') (new_Task ''build'' no_props)) = None \<and>
   toShellCommand 1 empty_registry (exec ''tsc'' (named ''compile'') (new_Task ''build'' no_props)) =
     Some (Inr ''(  ( echo compile ) && ( tsc ) )'') \<and>
   toShellCommand 1 empty_registry (exec ''tsc'' (named ''compile'') (new_Task ''build'' no_props)) \<noteq>
     Some (Inr ''(  ( tsc ) )'')"
  by (simp add: steps_def exec_def new_Task_def no_props_def named_def inline_step_def
        assemble_def effective_env_def empty_registry_def spread_def copy_props_def
        env_lines_def withCondition_def allCommands_def)

section \<open>The condition gate\<close>




section \<open>The environment of a step\<close>

text \<open>
  Claim C3, as amended. Rendering does not consult the environment override map of a
  step: for every task, replacing the maps of its steps by any others leaves the result
  of \<open>toShellCommand\<close> the same, so a step's map is applied neither to that step's
  fragment nor to the whole task. The environment that is applied is the registry's base
  environment overridden by the task-level environment: for objects with distinct keys
  the task-level value wins.
\<close>

theorem step_env_not_consulted:
  "toShellCommand n reg (t\<lparr>priv_steps := map (\<lambda>s. s\<lparr>step_env := e s\<rparr>) (priv_steps t)\<rparr>) =
     toShellCommand n reg t \<and>
   (distinct (map fst (tasks_env reg)) \<and> distinct (map fst (priv_env t)) \<longrightarrow>
      map_of (effective_env reg t) = map_of (tasks_env reg) ++ map_of (priv_env t))"
proof -
  have "toShellCommand n reg (t\<lparr>priv_steps := map (\<lambda>s. s\<lparr>step_env := e s\<rparr>) (priv_steps t)\<rparr>) =
     toShellCommand n reg t"
    by (cases n)
       (simp_all add: steps_def render_steps_step_env assemble_priv_steps
          cong: option.case_cong sum.case_cong)
  then show ?thesis
    by (simp add: effective_env_def map_of_spread)
qed

lemma step_env_task_fields:
  "priv_steps step_env_task =
     [\<lparr>step_name = None, step_env = Some [(''FOO'', ''step'')],
       step_exec = Some ''run'', step_execTask = None\<rparr>]"
  "priv_env step_env_task = [(''FOO'', ''task'')]"
  "condition step_env_task = None"
  by (simp_all add: step_env_task_def env_def exec_def new_Task_def no_props_def
        inline_step_def set_prop_def not_index_FOO)

text \<open>
  The task \<open>step_env_task\<close>: removing the override map of its step changes nothing,
  and the environment that is applied maps \<open>FOO\<close> to the task-level value.
\<close>

theorem step_env_not_consulted_witness:
  "toShellCommand 1 empty_registry
     (step_env_task\<lparr>priv_steps := map (\<lambda>s. s\<lparr>step_env := None\<rparr>) (priv_steps step_env_task)\<rparr>) =
   toShellCommand 1 empty_registry step_env_task \<and>
   map_of (effective_env empty_registry step_env_task) = [''FOO'' \<mapsto> ''task'']"
proof -
  have d: "distinct (map fst (tasks_env empty_registry)) \<and>
           distinct (map fst (priv_env step_env_task))"
    by (simp add: empty_registry_def step_env_task_fields)
  have m: "map_of (tasks_env empty_registry) ++ map_of (priv_env step_env_task) =
           [''FOO'' \<mapsto> ''task'']"
    by (simp add: empty_registry_def step_env_task_fields)
  show ?thesis
    using step_env_not_consulted [where n = 1 and reg = empty_registry and t = step_env_task
        and e = "\<lambda>s. None"] d m
    by (simp del: toShellCommand.simps)
qed

text \<open>
  Claim C3 as stated fails on \<open>step_env_task\<close>: its only step carries the override
  \<open>FOO = step\<close>, and the rendered command assigns the task-level value of \<open>FOO\<close>
  once, for the whole task, and applies the step's value nowhere.
\<close>

theorem step_env_counterexample:
  \<open>toShellCommand 1 empty_registry step_env_task = Some (Inr ''( FOO="task";  ( run ) )'') \<and>
   map (\<lambda>st. step_env st) (steps step_env_task) = [Some [(''FOO'', ''step'')]]\<close>
  by (simp add: steps_def step_env_task_fields assemble_def effective_env_def
        empty_registry_def spread_def copy_props_def set_prop_def not_index_FOO
        env_lines_def assignment_def withCondition_def allCommands_def)

section \<open>Steps with an empty command\<close>

text \<open>
  Claim C10, as amended. For every task, \<open>exec\<close> and \<open>prepend\<close> with the empty
  string as the command append and prepend a step, which counts in the \<open>steps\<close>
  accessor and in \<open>renderSpec\<close>. \<open>toShellCommand\<close> emits no fragment for the empty
  command itself: when the step's options carry no non-empty name the step contributes
  nothing and the task renders as it did without the step; when they carry a non-empty
  name the step contributes its echo fragment only, and the task renders as it would
  with an unnamed step whose command is \<open>echo name\<close>.
\<close>

theorem empty_command_step:
  "steps (exec [] opts t) = steps t @ [inline_step [] opts] \<and>
   steps (prepend [] opts t) = inline_step [] opts # steps t \<and>
   spec_steps (renderSpec (exec [] opts t)) = spec_steps (renderSpec t) @ [inline_step [] opts] \<and>
   spec_steps (renderSpec (prepend [] opts t)) = inline_step [] opts # spec_steps (renderSpec t) \<and>
   (\<not> truthy (step_name opts) \<longrightarrow>
      toShellCommand n reg (exec [] opts t) = toShellCommand n reg t \<and>
      toShellCommand n reg (prepend [] opts t) = toShellCommand n reg t) \<and>
   (truthy (step_name opts) \<longrightarrow>
      toShellCommand n reg (exec [] opts t) =
        toShellCommand n reg (exec (''echo '' @ the (step_name opts)) no_options t) \<and>
      toShellCommand n reg (prepend [] opts t) =
        toShellCommand n reg (prepend (''echo '' @ the (step_name opts)) no_options t))"
proof -
  have lists: "steps (exec [] opts t) = steps t @ [inline_step [] opts]"
    "steps (prepend [] opts t) = inline_step [] opts # steps t"
    "spec_steps (renderSpec (exec [] opts t)) = spec_steps (renderSpec t) @ [inline_step [] opts]"
    "spec_steps (renderSpec (prepend [] opts t)) = inline_step [] opts # spec_steps (renderSpec t)"
    by (simp_all add: steps_def exec_def prepend_def renderSpec_def)
  have silent: "toShellCommand n reg (exec [] opts t) = toShellCommand n reg t"
    "toShellCommand n reg (prepend [] opts t) = toShellCommand n reg t"
    if "\<not> truthy (step_name opts)"
  proof -
    from that have none: "own_fragments (inline_step [] opts) = []"
      by (simp add: own_fragments_inline_empty)
    show "toShellCommand n reg (exec [] opts t) = toShellCommand n reg t"
      using render_steps_no_fragments [OF none, of _ reg "priv_steps t" "[]" "[]"]
      by (intro toShellCommand_cong_steps) (simp_all add: exec_def)
    show "toShellCommand n reg (prepend [] opts t) = toShellCommand n reg t"
      using render_steps_no_fragments [OF none, of _ reg "[]" "priv_steps t" "[]"]
      by (intro toShellCommand_cong_steps) (simp_all add: prepend_def)
  qed
  have echo: "toShellCommand n reg (exec [] opts t) =
        toShellCommand n reg (exec (''echo '' @ the (step_name opts)) no_options t)"
    "toShellCommand n reg (prepend [] opts t) =
        toShellCommand n reg (prepend (''echo '' @ the (step_name opts)) no_options t)"
    if "truthy (step_name opts)"
  proof -
    from that have same: "own_fragments (inline_step [] opts) =
        own_fragments (inline_step (''echo '' @ the (step_name opts)) no_options)"
      by (simp add: own_fragments_inline_empty own_fragments_inline_plain)
    show "toShellCommand n reg (exec [] opts t) =
        toShellCommand n reg (exec (''echo '' @ the (step_name opts)) no_options t)"
      using render_steps_same_fragments [OF same, of _ reg "priv_steps t" "[]" "[]"]
      by (intro toShellCommand_cong_steps) (simp_all add: exec_def)
    show "toShellCommand n reg (prepend [] opts t) =
        toShellCommand n reg (prepend (''echo '' @ the (step_name opts)) no_options t)"
      using render_steps_same_fragments [OF same, of _ reg "[]" "priv_steps t" "[]"]
      by (intro toShellCommand_cong_steps) (simp_all add: prepend_def)
  qed
  from lists silent echo show ?thesis by blast
qed

text \<open>
  On \<open>compile_task\<close>: an unnamed empty step at the end, and a named empty step at the
  front.
\<close>

theorem empty_command_step_witness:
  "steps (exec [] no_options compile_task) = steps compile_task @ [inline_step [] no_options] \<and>
   toShellCommand 1 empty_registry (exec [] no_options compile_task) =
     toShellCommand 1 empty_registry compile_task \<and>
   toShellCommand 1 empty_registry (prepend [] (named ''hello'') compile_task) =
     toShellCommand 1 empty_registry (prepend ''echo hello'' no_options compile_task)"
proof -
  have a: "\<not> truthy (step_name no_options)"
    by (simp add: no_options_def)
  have b: "truthy (step_name (named ''hello''))" "the (step_name (named ''hello'')) = ''hello''"
    by (simp_all add: named_def)
  show ?thesis
    using empty_command_step [of no_options compile_task 1 empty_registry]
      empty_command_step [of "named ''hello''" compile_task 1 empty_registry] a b
    by (simp del: toShellCommand.simps)
qed

text \<open>
  Claim C10 as stated (the step contributes nothing) fails when the options carry a
  name: \<^verbatim>\<open>exec("", { name: "hello" })\<close> on a task without steps adds one step, and the
  rendered chain has the fragment \<open>( echo hello )\<close>, where the task without the step
  renders an empty chain.
\<close>

theorem empty_command_named_counterexample:
  "steps (exec [] (named ''hello'') (new_Task ''build'' no_props)) =
     [inline_step [] (named ''hello'')] \<and>
   toShellCommand 1 empty_registry (exec [] (named ''hello'') (new_Task ''build'' no_props)) =
     Some (Inr ''(  ( echo hello ) )'') \<and>
   toShellCommand 1 empty_registry (new_Task ''build'' no_props) = Some (Inr ''(   )'')"
  by (simp add: steps_def exec_def new_Task_def no_props_def named_def inline_step_def
        assemble_def effective_env_def empty_registry_def spread_def copy_props_def
        env_lines_def withCondition_def allCommands_def)

section \<open>The environment assignments\<close>






section \<open>Unresolved subtask references\<close>

text \<open>
  Claim C4, as amended. For every task with a step whose \<^verbatim>\<open>execTask\<close> is a non-empty
  name that the registry's \<open>tryFind\<close> does not find, \<open>toShellCommand\<close> returns no
  string, whole or partial, whatever the depth; and when the steps before that step
  render, it raises the error that names the step's task, with the message
  \<open>unable to resolve subtask\<close> followed by the name. The error is built by the
  renderer: \<open>tryFind\<close> only answers \<open>None\<close>.
\<close>

theorem unresolved_subtask_error:
  assumes "steps t = pre @ st # post"
    and "step_execTask st = Some m" and "m \<noteq> []" and "tryFind reg m = None"
  shows "(\<forall>n out. toShellCommand n reg t \<noteq> Some (Inr out)) \<and>
         (\<forall>n cmd. render_steps (toShellCommand n reg) reg pre [] = Some (Inr cmd) \<longrightarrow>
            toShellCommand (Suc n) reg t = Some (Inl (UnresolvedSubtask m)) \<and>
            error_message (UnresolvedSubtask m) = ''unable to resolve subtask '' @ m)"
proof (intro conjI allI impI)
  fix n out
  show "toShellCommand n reg t \<noteq> Some (Inr out)"
  proof (cases n)
    case 0
    then show ?thesis by simp
  next
    case (Suc k)
    show ?thesis
    proof
      assume "toShellCommand n reg t = Some (Inr out)"
      with Suc obtain c where
        "render_steps (toShellCommand k reg) reg (pre @ st # post) [] = Some (Inr c)"
        by (auto simp: toShellCommand_Inr_iff assms(1) simp del: toShellCommand.simps)
      then show False
        using render_steps_unresolved [OF assms(2-4)]
        by (auto simp: render_steps_append simp del: render_steps.simps
              split: option.splits sum.splits)
    qed
  qed
next
  fix n cmd
  assume "render_steps (toShellCommand n reg) reg pre [] = Some (Inr cmd)"
  then have "render_steps (toShellCommand n reg) reg (steps t) [] =
      Some (Inl (UnresolvedSubtask m))"
    using render_steps_unresolved [OF assms(2-4)]
    by (simp add: assms(1) render_steps_append del: render_steps.simps)
  then show "toShellCommand (Suc n) reg t = Some (Inl (UnresolvedSubtask m))"
    by simp
next
  show "error_message (UnresolvedSubtask m) = ''unable to resolve subtask '' @ m"
    by simp
qed

lemma deploy_task_steps:
  "steps deploy_task =
     [inline_step ''pack'' no_options] @ subtask_step ''release'' no_options #
     [inline_step ''publish'' no_options]"
  by (simp add: deploy_task_def steps_def exec_def execTask_def new_Task_def no_props_def)

text \<open>
  The task \<open>deploy_task\<close>: the step \<open>pack\<close> renders, the reference to
  \<open>release\<close> raises, and no string comes back.
\<close>

theorem unresolved_subtask_error_witness:
  "toShellCommand 1 empty_registry deploy_task = Some (Inl (UnresolvedSubtask ''release'')) \<and>
   error_message (UnresolvedSubtask ''release'') = ''unable to resolve subtask release'' \<and>
   toShellCommand 2 empty_registry deploy_task \<noteq> Some (Inr ''(  ( pack ) )'')"
proof -
  have m: "step_execTask (subtask_step ''release'' no_options) = Some ''release''"
    "''release'' \<noteq> []" "tryFind empty_registry ''release'' = None"
    by (simp_all add: subtask_step_def empty_registry_def)
  have pre: "render_steps (toShellCommand 0 empty_registry) empty_registry
      [inline_step ''pack'' no_options] [] = Some (Inr [''pack''])"
    by (simp add: inline_step_def no_options_def)
  from unresolved_subtask_error [OF deploy_task_steps m] pre show ?thesis
    by (auto simp del: toShellCommand.simps render_steps.simps)
qed

text \<open>
  Claim C4 as stated fails at two inputs. A step made by \<^verbatim>\<open>execTask\<close> from a task whose
  name is the empty string is skipped, since its \<^verbatim>\<open>execTask\<close> is falsy: the render
  returns a string and raises nothing, though \<open>tryFind\<close> does not find the name. And in
  \<open>two_missing_task\<close> the name \<open>second\<close> is not found, yet the error that is raised
  names \<open>first\<close>, the reference met before it.
\<close>

theorem unresolved_subtask_counterexample:
  "steps (execTask (new_Task '''' no_props) no_options (new_Task ''build'' no_props)) =
     [subtask_step '''' no_options] \<and>
   tryFind empty_registry '''' = None \<and>
   toShellCommand 1 empty_registry
     (execTask (new_Task '''' no_props) no_options (new_Task ''build'' no_props)) =
     Some (Inr ''(   )'') \<and>
   steps two_missing_task =
     [subtask_step ''first'' no_options, subtask_step ''second'' no_options] \<and>
   tryFind empty_registry ''second'' = None \<and>
   toShellCommand 1 empty_registry two_missing_task = Some (Inl (UnresolvedSubtask ''first''))"
  by (simp add: steps_def execTask_def new_Task_def no_props_def subtask_step_def
        no_options_def empty_registry_def two_missing_task_def assemble_def effective_env_def
        spread_def copy_props_def env_lines_def withCondition_def allCommands_def)

section \<open>Nested subtasks\<close>

text \<open>
  Claim C5, as amended. Let a step of task \<open>a\<close> have a non-empty \<^verbatim>\<open>execTask\<close> that the
  registry resolves to task \<open>b\<close>. Then \<open>toShellCommand\<close> of \<open>a\<close> returns a string
  exactly when the steps before that step render, \<open>b\<close> renders to some \<open>sb\<close> and the
  steps after it render; and the string is then the environment assignments of \<open>a\<close>
  followed by its (gated) \<open>&&\<close>-chain, in which \<open>( ( sb ) )\<close> is one element: after
  the grouped fragments of the earlier steps and of the step's own name and command,
  before the grouped fragments of the later steps. What \<open>b\<close> renders to is itself of
  the form \<open>( ... )\<close>.
\<close>

theorem subtask_nested:
  assumes "steps a = pre @ st # post"
    and "step_execTask st = Some bn" and "bn \<noteq> []" and "tryFind reg bn = Some b"
  shows "(toShellCommand (Suc n) reg a = Some (Inr out) \<longleftrightarrow>
          (\<exists>cpre sb cpost.
             render_steps (toShellCommand n reg) reg pre [] = Some (Inr cpre) \<and>
             toShellCommand n reg b = Some (Inr sb) \<and>
             render_steps (toShellCommand n reg) reg post [] = Some (Inr cpost) \<and>
             out = ''( '' @ concat (map assignment (effective_env reg a)) @ '' '' @
                   withCondition (condition a)
                     (join '' && ''
                        (map (\<lambda>c. ''( '' @ c @ '' )'') (cpre @ own_fragments st) @
                         [''( ( '' @ sb @ '' ) )''] @
                         map (\<lambda>c. ''( '' @ c @ '' )'') cpost)) @
                   '' )'')) \<and>
         (\<forall>sb. toShellCommand n reg b = Some (Inr sb) \<longrightarrow> (\<exists>inner. sb = ''( '' @ inner @ '' )''))"
proof
  show "toShellCommand (Suc n) reg a = Some (Inr out) \<longleftrightarrow>
          (\<exists>cpre sb cpost.
             render_steps (toShellCommand n reg) reg pre [] = Some (Inr cpre) \<and>
             toShellCommand n reg b = Some (Inr sb) \<and>
             render_steps (toShellCommand n reg) reg post [] = Some (Inr cpost) \<and>
             out = ''( '' @ concat (map assignment (effective_env reg a)) @ '' '' @
                   withCondition (condition a)
                     (join '' && ''
                        (map (\<lambda>c. ''( '' @ c @ '' )'') (cpre @ own_fragments st) @
                         [''( ( '' @ sb @ '' ) )''] @
                         map (\<lambda>c. ''( '' @ c @ '' )'') cpost)) @
                   '' )'')"
    unfolding toShellCommand_Inr_iff assms(1) render_steps_split [OF assms(2-4)]
    by (auto simp: assemble_def allCommands_def join_Nil env_lines_def)
next
  show "\<forall>sb. toShellCommand n reg b = Some (Inr sb) \<longrightarrow> (\<exists>inner. sb = ''( '' @ inner @ '' )'')"
  proof (intro allI impI)
    fix sb
    assume "toShellCommand n reg b = Some (Inr sb)"
    then show "\<exists>inner. sb = ''( '' @ inner @ '' )''"
      by (cases n) (auto simp: assemble_def split: option.splits sum.splits)
  qed
qed

lemma build_task_split:
  "steps build_task = [] @ subtask_step ''compile'' no_options # [inline_step ''pack'' no_options]"
  by (simp add: build_task_steps)

text \<open>
  The task \<open>build_task\<close> in \<open>build_registry\<close>: what \<open>compile_task\<close> renders to
  is the first element of the chain, before \<open>( pack )\<close>.
\<close>

theorem subtask_nested_witness:
  "toShellCommand 1 build_registry compile_task = Some (Inr ''(  ( tsc ) && ( jest ) )'') \<and>
   toShellCommand 2 build_registry build_task =
     Some (Inr ''(  ( ( (  ( tsc ) && ( jest ) ) ) ) && ( pack ) )'')"
proof -
  have b: "step_execTask (subtask_step ''compile'' no_options) = Some ''compile''"
    "''compile'' \<noteq> []" "tryFind build_registry ''compile'' = Some compile_task"
    by (simp_all add: subtask_step_def build_registry_def)
  have sub: "toShellCommand 1 build_registry compile_task =
      Some (Inr ''(  ( tsc ) && ( jest ) )'')"
    by (simp add: steps_def inline_step_def no_options_def assemble_def
          effective_env_def build_registry_def compile_task_def exec_def new_Task_def
          no_props_def spread_def copy_props_def env_lines_def withCondition_def allCommands_def)
  have post: "render_steps (toShellCommand 1 build_registry) build_registry
      [inline_step ''pack'' no_options] [] = Some (Inr [''pack''])"
    by (simp add: inline_step_def no_options_def del: toShellCommand.simps)
  have pre: "render_steps (toShellCommand 1 build_registry) build_registry [] [] = Some (Inr [])"
    by simp
  have own: "own_fragments (subtask_step ''compile'' no_options) = []"
    by (simp add: own_fragments_def subtask_step_def no_options_def)
  have env: "effective_env build_registry build_task = []" "condition build_task = None"
    by (simp_all add: effective_env_def build_registry_def build_task_def exec_def
          execTask_def new_Task_def no_props_def spread_def copy_props_def)
  have "toShellCommand (Suc 1) build_registry build_task =
     Some (Inr ''(  ( ( (  ( tsc ) && ( jest ) ) ) ) && ( pack ) )'')"
    unfolding subtask_nested [OF build_task_split b, THEN conjunct1]
    using sub post pre
    by (simp add: own env withCondition_def del: toShellCommand.simps render_steps.simps)
  with sub show ?thesis by (simp add: numeral_2_eq_2 del: toShellCommand.simps)
qed

text \<open>
  Claim C5 as stated fails at two inputs. In \<open>unnamed_registry\<close> the empty name
  resolves to \<open>unnamed_task\<close>, a step made by \<^verbatim>\<open>execTask\<close> from that task is skipped,
  and the string returned holds nothing of what \<open>unnamed_task\<close> renders to. And
  \<open>half_missing_task\<close> references \<open>compile\<close>, which \<open>build_registry\<close> resolves, and
  then \<open>release\<close>, which it does not: no string is produced.
\<close>

theorem subtask_nested_counterexample:
  "steps (execTask unnamed_task no_options (new_Task ''build'' no_props)) =
     [subtask_step '''' no_options] \<and>
   tryFind unnamed_registry '''' = Some unnamed_task \<and>
   toShellCommand 1 unnamed_registry unnamed_task = Some (Inr ''(  ( date ) )'') \<and>
   toShellCommand 2 unnamed_registry
     (execTask unnamed_task no_options (new_Task ''build'' no_props)) = Some (Inr ''(   )'') \<and>
   steps half_missing_task =
     [subtask_step ''compile'' no_options, subtask_step ''release'' no_options] \<and>
   tryFind build_registry ''compile'' = Some compile_task \<and>
   toShellCommand 2 build_registry half_missing_task =
     Some (Inl (UnresolvedSubtask ''release''))"
  by (simp add: steps_def execTask_def exec_def new_Task_def no_props_def subtask_step_def
        inline_step_def no_options_def unnamed_registry_def unnamed_task_def
        half_missing_task_def build_registry_def compile_task_def build_task_def
        assemble_def effective_env_def spread_def copy_props_def env_lines_def
        withCondition_def allCommands_def numeral_2_eq_2)

section \<open>Termination of the rendering\<close>

lemma render_steps_progress:
  assumes "\<forall>st \<in> set ss. truthy (step_execTask st) \<longrightarrow>
             (\<forall>t'. tryFind reg (the (step_execTask st)) = Some t' \<longrightarrow> sub t' \<noteq> None)"
  shows "render_steps sub reg ss cmd \<noteq> None"
  using assms render_steps_None_origin [of sub reg ss cmd] by blast

lemma toShellCommand_not_None_mono:
  "n \<le> m \<Longrightarrow> toShellCommand n reg t \<noteq> None \<Longrightarrow> toShellCommand m reg t \<noteq> None"
  using toShellCommand_mono [of n m reg t] by fastforce

lemma subtasks_common_fuel:
  assumes "\<forall>st \<in> set ss. truthy (step_execTask st) \<longrightarrow>
             (\<forall>t'. tryFind reg (the (step_execTask st)) = Some t' \<longrightarrow>
                (\<exists>n. toShellCommand n reg t' \<noteq> None))"
  shows "\<exists>N. \<forall>st \<in> set ss. truthy (step_execTask st) \<longrightarrow>
             (\<forall>t'. tryFind reg (the (step_execTask st)) = Some t' \<longrightarrow>
                toShellCommand N reg t' \<noteq> None)"
  using assms
proof (induction ss)
  case Nil
  then show ?case by simp
next
  case (Cons a ss)
  then obtain N where N: "\<forall>st \<in> set ss. truthy (step_execTask st) \<longrightarrow>
             (\<forall>t'. tryFind reg (the (step_execTask st)) = Some t' \<longrightarrow>
                toShellCommand N reg t' \<noteq> None)"
    by auto
  have "\<exists>M. truthy (step_execTask a) \<longrightarrow>
          (\<forall>t'. tryFind reg (the (step_execTask a)) = Some t' \<longrightarrow>
             toShellCommand M reg t' \<noteq> None)"
  proof (cases "truthy (step_execTask a) \<and> tryFind reg (the (step_execTask a)) \<noteq> None")
    case True
    then obtain t' where t': "tryFind reg (the (step_execTask a)) = Some t'" by auto
    with True Cons.prems obtain n where "toShellCommand n reg t' \<noteq> None" by auto
    with t' show ?thesis by auto
  next
    case False
    then show ?thesis by auto
  qed
  then obtain M where M: "truthy (step_execTask a) \<longrightarrow>
          (\<forall>t'. tryFind reg (the (step_execTask a)) = Some t' \<longrightarrow>
             toShellCommand M reg t' \<noteq> None)"
    by blast
  have "\<forall>st \<in> set (a # ss). truthy (step_execTask st) \<longrightarrow>
             (\<forall>t'. tryFind reg (the (step_execTask st)) = Some t' \<longrightarrow>
                toShellCommand (max N M) reg t' \<noteq> None)"
    using N M toShellCommand_not_None_mono [of N "max N M" reg]
      toShellCommand_not_None_mono [of M "max N M" reg]
    by auto
  then show ?case by blast
qed

lemma terminates_if_subtasks_do:
  assumes "\<forall>t'. references reg t t' \<longrightarrow> (\<exists>n. toShellCommand n reg t' \<noteq> None)"
  shows "\<exists>n. toShellCommand n reg t \<noteq> None"
proof -
  from assms have "\<forall>st \<in> set (steps t). truthy (step_execTask st) \<longrightarrow>
             (\<forall>t'. tryFind reg (the (step_execTask st)) = Some t' \<longrightarrow>
                (\<exists>n. toShellCommand n reg t' \<noteq> None))"
    by (auto simp: references_def)
  from subtasks_common_fuel [OF this] obtain N where
    "\<forall>st \<in> set (steps t). truthy (step_execTask st) \<longrightarrow>
       (\<forall>t'. tryFind reg (the (step_execTask st)) = Some t' \<longrightarrow>
          toShellCommand N reg t' \<noteq> None)"
    by blast
  then have "render_steps (toShellCommand N reg) reg (steps t) [] \<noteq> None"
    by (rule render_steps_progress)
  then have "toShellCommand (Suc N) reg t \<noteq> None"
    by (auto split: option.splits sum.splits)
  then show ?thesis by blast
qed

lemma references_in_registry: "references reg t t' \<Longrightarrow> t' \<in> ran (tryFind reg)"
  by (auto simp: references_def ran_def)

lemma registry_tasks_terminate:
  assumes fin: "finite (dom (tryFind reg))" and acyc: "acyclic (subtask_graph reg)"
  shows "t \<in> ran (tryFind reg) \<Longrightarrow> \<exists>n. toShellCommand n reg t \<noteq> None"
proof -
  let ?G = "subtask_graph reg \<inter> (ran (tryFind reg) \<times> ran (tryFind reg))"
  have "finite ?G"
    using finite_ran [OF fin] by simp
  moreover have "acyclic ?G"
    using acyc by (rule acyclic_subset) simp
  ultimately have wf: "wf (?G\<inverse>)"
    by (rule finite_acyclic_wf_converse)
  show "t \<in> ran (tryFind reg) \<Longrightarrow> \<exists>n. toShellCommand n reg t \<noteq> None"
    using wf
  proof (induction t rule: wf_induct_rule)
    case (less t)
    have "\<exists>n. toShellCommand n reg t' \<noteq> None" if "references reg t t'" for t'
    proof -
      from that have "t' \<in> ran (tryFind reg)" by (rule references_in_registry)
      moreover from this that less.prems have "(t', t) \<in> ?G\<inverse>"
        by (simp add: subtask_graph_def)
      ultimately show ?thesis by (rule less.IH [rotated])
    qed
    then show ?case
      using terminates_if_subtasks_do [of reg t] by blast
  qed
qed

lemma acyclic_terminates:
  assumes "finite (dom (tryFind reg))" and "acyclic (subtask_graph reg)"
  shows "\<exists>n. toShellCommand n reg t \<noteq> None"
proof (rule terminates_if_subtasks_do, intro allI impI)
  fix t'
  assume "references reg t t'"
  then have "t' \<in> ran (tryFind reg)" by (rule references_in_registry)
  then show "\<exists>n. toShellCommand n reg t' \<noteq> None"
    by (rule registry_tasks_terminate [OF assms])
qed

lemma returns_subtask_returns:
  assumes "toShellCommand (Suc n) reg t = Some (Inr out)" and "references reg t t'"
  shows "\<exists>out'. toShellCommand n reg t' = Some (Inr out')"
proof -
  from assms(1) obtain c where
    c: "render_steps (toShellCommand n reg) reg (steps t) [] = Some (Inr c)"
    by (auto simp: toShellCommand_Inr_iff simp del: toShellCommand.simps)
  from assms(2) obtain st where st: "st \<in> set (steps t)" "truthy (step_execTask st)"
    "tryFind reg (the (step_execTask st)) = Some t'"
    by (auto simp: references_def)
  from render_steps_Inr_subtask [OF c st(1,2)] st(3) show ?thesis by auto
qed

lemma self_reference_never_returns:
  "(t, t) \<in> (subtask_graph reg)\<^sup>+ \<Longrightarrow> toShellCommand n reg t \<noteq> Some (Inr out)"
proof (induction n arbitrary: t out)
  case 0
  then show ?case by simp
next
  case (Suc n)
  show ?case
  proof
    assume r: "toShellCommand (Suc n) reg t = Some (Inr out)"
    from Suc.prems obtain t' where e: "(t, t') \<in> subtask_graph reg"
      and again: "(t', t) \<in> (subtask_graph reg)\<^sup>*"
      by (auto dest: tranclD)
    from e have "references reg t t'" by (simp add: subtask_graph_def)
    with r obtain out' where "toShellCommand n reg t' = Some (Inr out')"
      using returns_subtask_returns by blast
    moreover from again e have "(t', t') \<in> (subtask_graph reg)\<^sup>+"
      by (rule rtrancl_into_trancl1)
    ultimately show False using Suc.IH by blast
  qed
qed

lemma raised_error_origin:
  "toShellCommand n reg t = Some (Inl e) \<Longrightarrow>
     \<exists>u m. (t, u) \<in> (subtask_graph reg)\<^sup>* \<and> unresolved reg u \<and>
           e = UnresolvedSubtask m \<and> m \<noteq> [] \<and> tryFind reg m = None"
proof (induction n arbitrary: t)
  case 0
  then show ?case by simp
next
  case (Suc n)
  from Suc.prems have "render_steps (toShellCommand n reg) reg (steps t) [] = Some (Inl e)"
    by (auto split: option.splits sum.splits)
  from render_steps_Inl_origin [OF this] obtain st where st: "st \<in> set (steps t)"
    "truthy (step_execTask st)"
    and alt: "tryFind reg (the (step_execTask st)) = None \<and>
                e = UnresolvedSubtask (the (step_execTask st)) \<or>
              (\<exists>t'. tryFind reg (the (step_execTask st)) = Some t' \<and>
                 toShellCommand n reg t' = Some (Inl e))"
    by blast
  from alt show ?case
  proof
    assume a: "tryFind reg (the (step_execTask st)) = None \<and>
                e = UnresolvedSubtask (the (step_execTask st))"
    with st have "unresolved reg t" by (auto simp: unresolved_def)
    moreover from st(2) have "the (step_execTask st) \<noteq> []"
      by (cases "step_execTask st") simp_all
    ultimately show ?thesis using a by blast
  next
    assume "\<exists>t'. tryFind reg (the (step_execTask st)) = Some t' \<and>
                 toShellCommand n reg t' = Some (Inl e)"
    then obtain t' where t': "tryFind reg (the (step_execTask st)) = Some t'"
      "toShellCommand n reg t' = Some (Inl e)" by blast
    from Suc.IH [OF t'(2)] obtain u m where u: "(t', u) \<in> (subtask_graph reg)\<^sup>*"
      "unresolved reg u" "e = UnresolvedSubtask m" "m \<noteq> []" "tryFind reg m = None"
      by blast
    from st t'(1) have "(t, t') \<in> subtask_graph reg"
      by (auto simp: subtask_graph_def references_def)
    from this u(1) have "(t, u) \<in> (subtask_graph reg)\<^sup>*"
      by (rule converse_rtrancl_into_rtrancl)
    with u show ?thesis by blast
  qed
qed

text \<open>
  Claim C7, as amended. For every registry of finitely many tasks in whose graph no task
  references itself, directly or transitively, \<open>toShellCommand\<close> terminates on every
  task: at some depth it returns a string or raises. For a task that references itself,
  directly or transitively, \<open>toShellCommand\<close> never returns a string: at every depth
  the call either has not returned or has raised the error for a non-empty name that
  \<open>tryFind\<close> does not find. When moreover no task reachable from it has an unresolved
  reference, the call does not return at any depth: the recursion does not terminate.
\<close>

theorem render_termination:
  "(finite (dom (tryFind reg)) \<and> acyclic (subtask_graph reg) \<longrightarrow>
      (\<exists>n. toShellCommand n reg t \<noteq> None)) \<and>
   ((t, t) \<in> (subtask_graph reg)\<^sup>+ \<longrightarrow>
      (\<forall>n. toShellCommand n reg t = None \<or>
            (\<exists>m. toShellCommand n reg t = Some (Inl (UnresolvedSubtask m)) \<and>
                 m \<noteq> [] \<and> tryFind reg m = None))) \<and>
   ((t, t) \<in> (subtask_graph reg)\<^sup>+ \<and>
    (\<forall>u. (t, u) \<in> (subtask_graph reg)\<^sup>* \<longrightarrow> \<not> unresolved reg u) \<longrightarrow>
      (\<forall>n. toShellCommand n reg t = None))"
proof (intro conjI impI allI)
  assume "finite (dom (tryFind reg)) \<and> acyclic (subtask_graph reg)"
  then show "\<exists>n. toShellCommand n reg t \<noteq> None"
    using acyclic_terminates by blast
next
  fix n
  assume cyc: "(t, t) \<in> (subtask_graph reg)\<^sup>+"
  show "toShellCommand n reg t = None \<or>
            (\<exists>m. toShellCommand n reg t = Some (Inl (UnresolvedSubtask m)) \<and>
                 m \<noteq> [] \<and> tryFind reg m = None)"
  proof (cases "toShellCommand n reg t")
    case None
    then show ?thesis by simp
  next
    case (Some r)
    show ?thesis
    proof (cases r)
      case (Inl e)
      with Some raised_error_origin [of n reg t e] show ?thesis by auto
    next
      case (Inr out)
      with Some self_reference_never_returns [OF cyc, of n out] show ?thesis by simp
    qed
  qed
next
  fix n
  assume a: "(t, t) \<in> (subtask_graph reg)\<^sup>+ \<and>
    (\<forall>u. (t, u) \<in> (subtask_graph reg)\<^sup>* \<longrightarrow> \<not> unresolved reg u)"
  show "toShellCommand n reg t = None"
  proof (cases "toShellCommand n reg t")
    case None
    then show ?thesis .
  next
    case (Some r)
    show ?thesis
    proof (cases r)
      case (Inl e)
      with Some raised_error_origin [of n reg t e] a show ?thesis by blast
    next
      case (Inr out)
      with Some self_reference_never_returns [of t reg n out] a show ?thesis by simp
    qed
  qed
qed

lemma acyclic_by_rank:
  fixes f :: "'a \<Rightarrow> nat"
  assumes "\<And>a b. (a, b) \<in> G \<Longrightarrow> f b < f a"
  shows "acyclic G"
proof -
  from assms have "G\<inverse> \<subseteq> measure f" by auto
  then have "wf (G\<inverse>)" by (rule wf_subset [OF wf_measure])
  then have "acyclic (G\<inverse>)" by (rule wf_acyclic)
  then show ?thesis by simp
qed

lemma build_registry_acyclic:
  "finite (dom (tryFind build_registry)) \<and> acyclic (subtask_graph build_registry)"
proof
  show "finite (dom (tryFind build_registry))"
    by (simp add: build_registry_def)
  have leaf: "\<not> references build_registry compile_task b" for b
    by (simp add: references_def compile_task_steps inline_step_def)
  have one: "references build_registry build_task b \<Longrightarrow> b = compile_task" for b
    by (auto simp: references_def build_task_steps inline_step_def subtask_step_def
          build_registry_def)
  have target: "references build_registry a b \<Longrightarrow> b = compile_task \<or> b = build_task" for a b
    by (auto simp: references_def build_registry_def split: if_splits)
  have neq: "compile_task \<noteq> build_task"
  proof
    assume "compile_task = build_task"
    then have "steps compile_task = steps build_task" by simp
    then show False
      by (simp add: compile_task_steps build_task_steps inline_step_def subtask_step_def)
  qed
  let ?f = "\<lambda>t. if t = compile_task then 0 else if t = build_task then 1 else (2::nat)"
  show "acyclic (subtask_graph build_registry)"
  proof (rule acyclic_by_rank [where f = ?f])
    fix a b
    assume "(a, b) \<in> subtask_graph build_registry"
    then have r: "references build_registry a b" by (simp add: subtask_graph_def)
    from target [OF r] show "?f b < ?f a"
    proof
      assume "b = compile_task"
      with r leaf show ?thesis by auto
    next
      assume b: "b = build_task"
      with r leaf have "a \<noteq> compile_task" by auto
      moreover have "a \<noteq> build_task"
      proof
        assume "a = build_task"
        with r b have "references build_registry build_task build_task" by simp
        from one [OF this] neq show False by simp
      qed
      ultimately show ?thesis using b neq by auto
    qed
  qed
qed

lemma ping_pong_steps:
  "steps ping_task = [subtask_step ''pong'' no_options]"
  "steps pong_task = [subtask_step ''ping'' no_options]"
  by (simp_all add: ping_task_def pong_task_def steps_def execTask_def new_Task_def no_props_def)

lemma loop_registry_cycle:
  "(ping_task, ping_task) \<in> (subtask_graph loop_registry)\<^sup>+ \<and>
   (\<forall>u. (ping_task, u) \<in> (subtask_graph loop_registry)\<^sup>* \<longrightarrow> \<not> unresolved loop_registry u)"
proof
  have a: "(ping_task, pong_task) \<in> subtask_graph loop_registry"
    by (simp add: subtask_graph_def references_def ping_pong_steps subtask_step_def
          loop_registry_def)
  have b: "(pong_task, ping_task) \<in> subtask_graph loop_registry"
    by (simp add: subtask_graph_def references_def ping_pong_steps subtask_step_def
          loop_registry_def)
  from a b show "(ping_task, ping_task) \<in> (subtask_graph loop_registry)\<^sup>+"
    by (rule trancl_into_trancl2 [OF _ r_into_trancl])
  have target: "(x, u) \<in> subtask_graph loop_registry \<Longrightarrow> u = ping_task \<or> u = pong_task"
    for x u
    by (auto simp: subtask_graph_def references_def loop_registry_def split: if_splits)
  have resolved: "\<not> unresolved loop_registry ping_task" "\<not> unresolved loop_registry pong_task"
    by (simp_all add: unresolved_def ping_pong_steps subtask_step_def loop_registry_def)
  show "\<forall>u. (ping_task, u) \<in> (subtask_graph loop_registry)\<^sup>* \<longrightarrow>
          \<not> unresolved loop_registry u"
  proof (intro allI impI)
    fix u
    assume "(ping_task, u) \<in> (subtask_graph loop_registry)\<^sup>*"
    then have "u = ping_task \<or> u = pong_task"
      by (cases rule: rtranclE) (auto dest: target)
    with resolved show "\<not> unresolved loop_registry u" by auto
  qed
qed

text \<open>
  \<open>build_registry\<close> is finite and acyclic, and \<open>build_task\<close> renders; in
  \<open>loop_registry\<close> the task \<open>ping_task\<close> references itself through \<open>pong_task\<close>,
  every reference resolves, and the call has not returned at depth \<open>3\<close>.
\<close>

theorem render_termination_witness:
  "(\<exists>n. toShellCommand n build_registry build_task \<noteq> None) \<and>
   toShellCommand 3 loop_registry ping_task = None"
proof -
  from render_termination [of build_registry build_task] build_registry_acyclic
  have "\<exists>n. toShellCommand n build_registry build_task \<noteq> None"
    by blast
  moreover from render_termination [of loop_registry ping_task] loop_registry_cycle
  have "toShellCommand 3 loop_registry ping_task = None"
    by blast
  ultimately show ?thesis by blast
qed

text \<open>
  Claim C7 as stated (a task that references itself never terminates) fails on
  \<open>retry_task\<close>: it references itself, and its render terminates, by raising the error
  for the unresolved reference that comes before the reference to itself.
\<close>

theorem self_reference_after_missing_counterexample:
  "references retry_registry retry_task retry_task \<and>
   toShellCommand 1 retry_registry retry_task = Some (Inl (UnresolvedSubtask ''missing''))"
  by (simp add: references_def retry_registry_def retry_task_def steps_def execTask_def
        new_Task_def no_props_def subtask_step_def no_options_def)

section \<open>The copy returned by the steps accessor\<close>










text \<open>
  By contrast \<^verbatim>\<open>_renderSpec\<close> hands out the internal array itself, and a mutation
  through it is a mutation of the task.
\<close>

lemma mutation_through_renderSpec_steps:
  assumes "arrays s (priv_steps this) = Some rs"
  shows "arrays (mutate_array (renderSpec_steps this) f s) (priv_steps this) = Some (f rs)"
  using assms by (simp add: mutate_array_def renderSpec_steps_def)




end
